theory Spec2Isabelle
  imports Main "HOL-Library.Word"
begin

unbundle bit_operations_syntax

section \<open>The ST7565 driver (adafruit\_st7565.py)\<close>

subsection \<open>Data model\<close>

text \<open>
  The driver talks to three collaborators that are not part of the repository: the SPI
  bus device, the data/command pin and the optional reset pin. Everything it does to
  them is recorded, in order, in a log of events; the only collaborator that can raise
  is the bus write. What each bus write does is fixed beforehand by a script: the head
  of the script is consumed by every write, \<open>None\<close> (or an exhausted script) lets the
  write succeed and \<open>Some e\<close> makes it raise \<open>e\<close>.

  \<open>time.sleep\<close> takes seconds as a float in the source (0.5, 0.05, 0.01); the event
  \<open>Sleep\<close> carries the same duration in milliseconds.
\<close>

type_synonym byte = "8 word"

datatype pin = DC | RST

datatype error = TransportError nat | ValueError | IndexError | TypeError

datatype event =
    SwitchToOutput pin bool
  | SetPin pin bool
  | Sleep nat
  | Acquire
  | Write "byte list"
  | WriteFailed "byte list"
  | Release

text \<open>
  The object: \<open>buffer\<close>, \<open>_contrast\<close> (\<open>None\<close> until the setter runs), \<open>_invert\<close>,
  \<open>_reset_pin\<close> (only its truth value is ever used), and the outside world
  (\<open>log\<close>, \<open>script\<close>).
\<close>

record st =
  buffer :: "byte list"
  priv_contrast :: "int option"
  priv_invert :: bool
  priv_reset_pin :: bool
  log :: "event list"
  script :: "error option list"

type_synonym 'a result = "(error + 'a) \<times> st"

subsection \<open>Class constants\<close>

definition LCDWIDTH :: nat where "LCDWIDTH = 128"
definition LCDHEIGHT :: nat where "LCDHEIGHT = 64"

definition pagemap :: "nat list" where "pagemap = [0, 1, 2, 3, 4, 5, 6, 7]"

definition CMD_DISPLAY_ON :: int where "CMD_DISPLAY_ON = 0xAF"
definition CMD_SET_DISP_START_LINE :: int where "CMD_SET_DISP_START_LINE = 0x40"
definition CMD_SET_PAGE :: int where "CMD_SET_PAGE = 0xB0"
definition CMD_SET_COLUMN_UPPER :: int where "CMD_SET_COLUMN_UPPER = 0x10"
definition CMD_SET_COLUMN_LOWER :: int where "CMD_SET_COLUMN_LOWER = 0x00"
definition CMD_SET_ADC_REVERSE :: int where "CMD_SET_ADC_REVERSE = 0xA1"
definition CMD_SET_DISP_NORMAL :: int where "CMD_SET_DISP_NORMAL = 0xA6"
definition CMD_SET_DISP_REVERSE :: int where "CMD_SET_DISP_REVERSE = 0xA7"
definition CMD_SET_ALLPTS_NORMAL :: int where "CMD_SET_ALLPTS_NORMAL = 0xA4"
definition CMD_SET_BIAS_7 :: int where "CMD_SET_BIAS_7 = 0xA3"
definition CMD_SET_COM_NORMAL :: int where "CMD_SET_COM_NORMAL = 0xC0"
definition CMD_SET_POWER_CONTROL :: int where "CMD_SET_POWER_CONTROL = 0x28"
definition CMD_SET_RESISTOR_RATIO :: int where "CMD_SET_RESISTOR_RATIO = 0x20"
definition CMD_SET_VOLUME_FIRST :: int where "CMD_SET_VOLUME_FIRST = 0x81"
definition CMD_SET_VOLUME_SECOND :: int where "CMD_SET_VOLUME_SECOND = 0x00"

subsection \<open>Statements and their sequencing\<close>

text \<open>
  A statement takes the state and returns the new state with either a value or the
  exception it raised. \<open>steps\<close> runs statements one after the other and stops at the
  first exception, which it hands on as it is; a \<open>for\<close> loop over a tuple is \<open>steps\<close>
  of the loop body mapped over the tuple.
\<close>

definition ok :: "(st \<Rightarrow> st) \<Rightarrow> st \<Rightarrow> unit result" where
  "ok f s = (Inr (), f s)"

fun steps :: "(st \<Rightarrow> unit result) list \<Rightarrow> st \<Rightarrow> unit result" where
  "steps [] s = (Inr (), s)"
| "steps (f # fs) s = (case f s of (Inl e, s') \<Rightarrow> (Inl e, s') | (Inr u, s') \<Rightarrow> steps fs s')"

definition emit :: "event \<Rightarrow> st \<Rightarrow> st" where
  "emit ev s = s\<lparr>log := log s @ [ev]\<rparr>"

definition sleep :: "nat \<Rightarrow> st \<Rightarrow> st" where
  "sleep ms = emit (Sleep ms)"

subsection \<open>The bus device\<close>

text \<open>\<open>spi.write(bs)\<close>: one write on the bus, which succeeds or raises as the script says.\<close>

definition spi_write :: "byte list \<Rightarrow> st \<Rightarrow> unit result" where
  "spi_write bs s =
     (case script s of
        [] \<Rightarrow> (Inr (), emit (Write bs) s)
      | None # rest \<Rightarrow> (Inr (), emit (Write bs) (s\<lparr>script := rest\<rparr>))
      | Some e # rest \<Rightarrow> (Inl e, emit (WriteFailed bs) (s\<lparr>script := rest\<rparr>)))"

text \<open>
  \<open>with self.spi_device as spi: body\<close>: the bus is acquired, the body runs, and the bus
  is released whether the body returned or raised.
\<close>

definition with_spi_device :: "(st \<Rightarrow> unit result) \<Rightarrow> st \<Rightarrow> unit result" where
  "with_spi_device body s =
     (case body (emit Acquire s) of (r, s') \<Rightarrow> (r, emit Release s'))"

text \<open>\<open>bytearray([cmd])\<close> raises \<open>ValueError\<close> unless \<open>cmd\<close> is in \<open>range(256)\<close>.\<close>

definition bytearray1 :: "int \<Rightarrow> error + byte list" where
  "bytearray1 cmd = (if 0 \<le> cmd \<and> cmd < 256 then Inr [word_of_int cmd] else Inl ValueError)"

text \<open>\<open>xs[a:b]\<close> for indices that are not negative.\<close>

definition slice :: "'a list \<Rightarrow> nat \<Rightarrow> nat \<Rightarrow> 'a list" where
  "slice xs a b = drop a (take b xs)"

subsection \<open>The methods\<close>

definition reset :: "st \<Rightarrow> unit result" where
  "reset s =
     (if priv_reset_pin s
      then steps [ok (emit (SetPin RST False)), ok (sleep 500),
                  ok (emit (SetPin RST True)), ok (sleep 500)] s
      else (Inr (), s))"

definition write_cmd :: "int \<Rightarrow> st \<Rightarrow> unit result" where
  "write_cmd cmd =
     steps [ok (emit (SetPin DC False)),
            with_spi_device (\<lambda>s. case bytearray1 cmd of
                                    Inl e \<Rightarrow> (Inl e, s)
                                  | Inr bs \<Rightarrow> spi_write bs s)]"

text \<open>
  The body of the loop of \<open>show\<close>. \<open>self.pagemap[page]\<close> raises \<open>IndexError\<close> when
  \<open>page\<close> is not an index of the tuple; the arguments of the three commands are
  written as in the source.
\<close>

definition show_page :: "nat \<Rightarrow> st \<Rightarrow> unit result" where
  "show_page page s =
     (if page < length pagemap
      then steps
        [write_cmd (CMD_SET_PAGE OR int (pagemap ! page)),
         write_cmd (CMD_SET_COLUMN_LOWER OR (0 AND 0xF)),
         write_cmd (CMD_SET_COLUMN_UPPER OR (drop_bit 4 0 AND 0xF)),
         ok (emit (SetPin DC True)),
         with_spi_device
           (\<lambda>s. spi_write (slice (buffer s) (push_bit 7 page) (push_bit 7 (page + 1))) s)] s
      else (Inl IndexError, s))"

definition show_display :: "st \<Rightarrow> unit result" where
  "show_display = steps (map show_page pagemap)"

definition invert :: "st \<Rightarrow> bool result" where
  "invert s = (Inr (priv_invert s), s)"

definition invert_setter :: "bool \<Rightarrow> st \<Rightarrow> unit result" where
  "invert_setter val =
     steps [ok (\<lambda>s. s\<lparr>priv_invert := val\<rparr>),
            (if val then write_cmd CMD_SET_DISP_REVERSE else write_cmd CMD_SET_DISP_NORMAL)]"

definition contrast :: "st \<Rightarrow> int option result" where
  "contrast s = (Inr (priv_contrast s), s)"

text \<open>\<open>self._contrast & 0x3F\<close> raises \<open>TypeError\<close> when \<open>self._contrast\<close> is \<open>None\<close>.\<close>

definition contrast_setter :: "int \<Rightarrow> st \<Rightarrow> unit result" where
  "contrast_setter val =
     steps [ok (\<lambda>s. s\<lparr>priv_contrast := Some (max 0 (min val 0x7F))\<rparr>),
            write_cmd CMD_SET_VOLUME_FIRST,
            (\<lambda>s. case priv_contrast s of
                    None \<Rightarrow> (Inl TypeError, s)
                  | Some c \<Rightarrow> write_cmd (CMD_SET_VOLUME_SECOND OR (c AND 0x3F)) s)]"

text \<open>
  \<open>__init__\<close>, from the world it is started in. The construction of the bus device and
  of the frame buffer superclass write nothing on the bus and touch neither the
  data/command pin nor the reset pin, so they leave no event.
\<close>

definition init :: "bool \<Rightarrow> int \<Rightarrow> event list \<Rightarrow> error option list \<Rightarrow> unit result" where
  "init reset_pin contrast_arg lg sc =
     steps
       [ok (emit (SwitchToOutput DC False)),
        ok (\<lambda>s. s\<lparr>priv_reset_pin := reset_pin\<rparr>),
        (if reset_pin then ok (emit (SwitchToOutput RST True)) else ok id),
        ok (\<lambda>s. s\<lparr>buffer := replicate (LCDHEIGHT * LCDWIDTH) 0\<rparr>),
        ok (\<lambda>s. s\<lparr>priv_contrast := None\<rparr>),
        ok (\<lambda>s. s\<lparr>priv_invert := False\<rparr>),
        reset,
        write_cmd CMD_SET_BIAS_7,
        write_cmd CMD_SET_ADC_REVERSE,
        write_cmd CMD_SET_COM_NORMAL,
        write_cmd CMD_SET_DISP_START_LINE,
        write_cmd (CMD_SET_POWER_CONTROL OR 0x4),
        ok (sleep 50),
        write_cmd (CMD_SET_POWER_CONTROL OR 0x6),
        ok (sleep 50),
        write_cmd (CMD_SET_POWER_CONTROL OR 0x7),
        ok (sleep 10),
        write_cmd (CMD_SET_RESISTOR_RATIO OR 0x7),
        write_cmd CMD_DISPLAY_ON,
        write_cmd CMD_SET_ALLPTS_NORMAL,
        contrast_setter contrast_arg]
       \<lparr>buffer = [], priv_contrast = None, priv_invert = False, priv_reset_pin = False,
        log = lg, script = sc\<rparr>"

subsection \<open>Describing what a call did\<close>

text \<open>
  \<open>no_faults n sc\<close>: the next \<open>n\<close> bus writes of the script \<open>sc\<close> all succeed.
\<close>

definition no_faults :: "nat \<Rightarrow> error option list \<Rightarrow> bool" where
  "no_faults n sc = list_all (\<lambda>x. x = None) (take n sc)"

text \<open>
  A bus transaction is the level of the data/command pin and the bytes written at that
  level: \<open>transact\<close> performs one, \<open>tx_ok\<close> and \<open>tx_failed\<close> are the events it leaves
  when the write succeeds and when it raises.
\<close>

definition transact :: "bool \<times> byte list \<Rightarrow> st \<Rightarrow> unit result" where
  "transact t = steps [ok (emit (SetPin DC (fst t))), with_spi_device (spi_write (snd t))]"

definition tx_ok :: "bool \<times> byte list \<Rightarrow> event list" where
  "tx_ok t = [SetPin DC (fst t), Acquire, Write (snd t), Release]"

definition tx_failed :: "bool \<times> byte list \<Rightarrow> event list" where
  "tx_failed t = [SetPin DC (fst t), Acquire, WriteFailed (snd t), Release]"

text \<open>
  The four transactions of page \<open>p\<close> as the specification words them: the page command,
  the two column commands, and the \<open>LCDWIDTH\<close> bytes of the buffer from \<open>p * LCDWIDTH\<close> on.
\<close>

definition page_txs :: "byte list \<Rightarrow> nat \<Rightarrow> (bool \<times> byte list) list" where
  "page_txs buf p =
     [(False, [word_of_int (0xB0 OR int (pagemap ! p))]),
      (False, [word_of_int (0x00 OR 0)]),
      (False, [word_of_int (0x10 OR 0)]),
      (True, slice buf (p * LCDWIDTH) ((p + 1) * LCDWIDTH))]"

definition show_txs :: "byte list \<Rightarrow> (bool \<times> byte list) list" where
  "show_txs buf = concat (map (page_txs buf) [0..<8])"

text \<open>The events a call adds to the log.\<close>

definition emitted :: "(st \<Rightarrow> 'a result) \<Rightarrow> st \<Rightarrow> event list" where
  "emitted f s = drop (length (log s)) (log (snd (f s)))"

text \<open>
  \<open>written d dc es\<close>: the bytes that the events \<open>es\<close> wrote successfully while the
  data/command pin was at level \<open>d\<close> (\<open>False\<close> for commands, \<open>True\<close> for data), when the
  pin is at level \<open>dc\<close> before them.
\<close>

fun written :: "bool \<Rightarrow> bool \<Rightarrow> event list \<Rightarrow> byte list" where
  "written d dc [] = []"
| "written d dc (SetPin DC v # es) = written d v es"
| "written d dc (SwitchToOutput DC v # es) = written d v es"
| "written d dc (Write bs # es) = (if dc = d then bs else []) @ written d dc es"
| "written d dc (e # es) = written d dc es"

text \<open>
  The initialisation sequence mixes commands with delays: an item is either an event that
  is merely emitted (a delay) or a bus transaction. \<open>init_items\<close> lists the items of
  the specification in its order: bias select, ADC reverse, COM output normal, display
  start line 0, the three power-control stages each with its delay, resistor-ratio select,
  display on, all-points-normal.
\<close>

definition run_item :: "event + bool \<times> byte list \<Rightarrow> st \<Rightarrow> unit result" where
  "run_item i = (case i of Inl ev \<Rightarrow> ok (emit ev) | Inr t \<Rightarrow> transact t)"

definition item_events :: "event + bool \<times> byte list \<Rightarrow> event list" where
  "item_events i = (case i of Inl ev \<Rightarrow> [ev] | Inr t \<Rightarrow> tx_ok t)"

fun writes_of :: "(event + bool \<times> byte list) list \<Rightarrow> nat" where
  "writes_of [] = 0"
| "writes_of (Inl ev # is) = writes_of is"
| "writes_of (Inr t # is) = Suc (writes_of is)"

definition cmd :: "int \<Rightarrow> event + bool \<times> byte list" where
  "cmd c = Inr (False, [word_of_int c])"

definition init_items :: "(event + bool \<times> byte list) list" where
  "init_items =
     [cmd CMD_SET_BIAS_7, cmd CMD_SET_ADC_REVERSE, cmd CMD_SET_COM_NORMAL,
      cmd CMD_SET_DISP_START_LINE,
      cmd (CMD_SET_POWER_CONTROL OR 0x4), Inl (Sleep 50),
      cmd (CMD_SET_POWER_CONTROL OR 0x6), Inl (Sleep 50),
      cmd (CMD_SET_POWER_CONTROL OR 0x7), Inl (Sleep 10),
      cmd (CMD_SET_RESISTOR_RATIO OR 0x7), cmd CMD_DISPLAY_ON, cmd CMD_SET_ALLPTS_NORMAL]"

text \<open>The reset pulse: low, settle, high, settle, when there is a reset line.\<close>

definition reset_events :: "bool \<Rightarrow> event list" where
  "reset_events present =
     (if present then [SetPin RST False, Sleep 500, SetPin RST True, Sleep 500] else [])"

text \<open>
  An event is quiet when it neither touches the reset pin nor sleeps for the reset-settle
  time of 500 ms.
\<close>

fun quiet :: "event \<Rightarrow> bool" where
  "quiet (SetPin RST v) = False"
| "quiet (SwitchToOutput RST v) = False"
| "quiet (Sleep n) = (n \<noteq> 500)"
| "quiet e = True"

text \<open>
  A statement is bus-only when, from every state, it only appends quiet events to the log
  and leaves the buffer as it is.
\<close>

definition bus_only :: "(st \<Rightarrow> unit result) \<Rightarrow> bool" where
  "bus_only f = (\<forall>s. \<exists>E. log (snd (f s)) = log s @ E \<and> list_all quiet E
                         \<and> buffer (snd (f s)) = buffer s)"

subsection \<open>States used as concrete inputs\<close>

definition example_state :: st where
  "example_state =
     \<lparr>buffer = replicate (LCDHEIGHT * LCDWIDTH) 0, priv_contrast = Some 0, priv_invert = False,
      priv_reset_pin = True, log = [], script = []\<rparr>"

definition faulty_state :: st where
  "faulty_state =
     \<lparr>buffer = replicate (LCDHEIGHT * LCDWIDTH) 0, priv_contrast = Some 0, priv_invert = False,
      priv_reset_pin = True, log = [],
      script = [None, None, None, None, None, Some (TransportError 5)]\<rparr>"

definition other_state :: st where
  "other_state =
     \<lparr>buffer = replicate 1024 0 @ [0xFF, 0xFF], priv_contrast = Some 0, priv_invert = False,
      priv_reset_pin = True, log = [Sleep 10], script = []\<rparr>"

definition first_write_fails :: st where
  "first_write_fails =
     \<lparr>buffer = replicate (LCDHEIGHT * LCDWIDTH) 0, priv_contrast = Some 0, priv_invert = False,
      priv_reset_pin = True, log = [], script = [Some (TransportError 1)]\<rparr>"

section \<open>Auxiliary facts\<close>

lemmas cmd_defs =
  CMD_DISPLAY_ON_def CMD_SET_DISP_START_LINE_def CMD_SET_PAGE_def CMD_SET_COLUMN_UPPER_def
  CMD_SET_COLUMN_LOWER_def CMD_SET_ADC_REVERSE_def CMD_SET_DISP_NORMAL_def
  CMD_SET_DISP_REVERSE_def CMD_SET_ALLPTS_NORMAL_def CMD_SET_BIAS_7_def
  CMD_SET_COM_NORMAL_def CMD_SET_POWER_CONTROL_def CMD_SET_RESISTOR_RATIO_def
  CMD_SET_VOLUME_FIRST_def CMD_SET_VOLUME_SECOND_def

subsection \<open>Bus transactions, one and many\<close>

lemma transact_cases:
  "transact t s =
     (case script s of
        [] \<Rightarrow> (Inr (), s\<lparr>log := log s @ tx_ok t\<rparr>)
      | None # rest \<Rightarrow> (Inr (), s\<lparr>log := log s @ tx_ok t, script := rest\<rparr>)
      | Some e # rest \<Rightarrow> (Inl e, s\<lparr>log := log s @ tx_failed t, script := rest\<rparr>))"
  by (simp add: transact_def ok_def emit_def with_spi_device_def spi_write_def tx_ok_def
      tx_failed_def split: list.split option.split)

lemma write_cmd_transact:
  "0 \<le> c \<Longrightarrow> c < 256 \<Longrightarrow> write_cmd c = transact (False, [word_of_int c])"
  by (simp add: write_cmd_def transact_def bytearray1_def)

lemma steps_append:
  "steps (fs @ gs) s = (case steps fs s of (Inl e, s') \<Rightarrow> (Inl e, s') | (Inr u, s') \<Rightarrow> steps gs s')"
  by (induction fs arbitrary: s) (auto split: prod.split sum.split)

lemma no_faults_Suc_Cons: "no_faults (Suc n) (x # sc) \<longleftrightarrow> x = None \<and> no_faults n sc"
  by (simp add: no_faults_def)

lemma transact_ok:
  "no_faults (Suc n) (script s) \<Longrightarrow>
   transact t s = (Inr (), s\<lparr>log := log s @ tx_ok t, script := drop 1 (script s)\<rparr>)"
  by (cases "script s") (auto simp: transact_cases no_faults_Suc_Cons)

lemma no_faults_drop: "no_faults (k + n) sc \<Longrightarrow> no_faults n (drop k sc)"
  unfolding no_faults_def list_all_iff
  by (metis add.commute in_set_dropD take_drop)

lemma steps_transact_ok:
  "no_faults (length txs) (script s) \<Longrightarrow>
   steps (map transact txs) s =
     (Inr (), s\<lparr>log := log s @ concat (map tx_ok txs), script := drop (length txs) (script s)\<rparr>)"
proof (induction txs arbitrary: s)
  case Nil
  then show ?case by simp
next
  case (Cons t txs)
  from Cons.prems have h: "no_faults (Suc (length txs)) (script s)" by simp
  have d: "no_faults (length txs) (drop 1 (script s))"
    using no_faults_drop [of 1 "length txs" "script s"] h by simp
  let ?s1 = "s\<lparr>log := log s @ tx_ok t, script := drop 1 (script s)\<rparr>"
  have "steps (map transact (t # txs)) s = steps (map transact txs) ?s1"
    by (simp add: transact_ok [OF h])
  also have "\<dots> = (Inr (), ?s1\<lparr>log := log ?s1 @ concat (map tx_ok txs),
                                script := drop (length txs) (script ?s1)\<rparr>)"
    using d by (intro Cons.IH) simp
  finally show ?case by simp
qed

lemma steps_transact_fault:
  "k < length txs \<Longrightarrow> script s = replicate k None @ Some e # rest \<Longrightarrow>
   steps (map transact txs) s =
     (Inl e, s\<lparr>log := log s @ concat (map tx_ok (take k txs)) @ tx_failed (txs ! k),
                script := rest\<rparr>)"
proof (induction txs arbitrary: s k)
  case Nil
  then show ?case by simp
next
  case (Cons t txs)
  show ?case
  proof (cases k)
    case 0
    with Cons.prems show ?thesis by (simp add: transact_cases)
  next
    case (Suc j)
    with Cons.prems have j: "j < length txs" by simp
    from Suc Cons.prems have sc: "script s = None # (replicate j None @ Some e # rest)" by simp
    have t: "transact t s =
        (Inr (), s\<lparr>log := log s @ tx_ok t, script := replicate j None @ Some e # rest\<rparr>)"
      by (simp add: transact_cases sc)
    show ?thesis
      by (simp add: t Suc Cons.IH [OF j])
  qed
qed

lemma steps_transact_buffer: "buffer (snd (steps (map transact txs) s)) = buffer s"
  by (induction txs arbitrary: s)
     (auto simp: transact_cases split: list.split option.split)

subsection \<open>The loop of show as a list of transactions\<close>

lemma page_cases: "p < 8 \<Longrightarrow> p \<in> {0, 1, 2, 3, 4, 5, 6, 7::nat}"
  by auto

lemma set_page_byte:
  assumes "p < 8"
  shows "0 \<le> CMD_SET_PAGE OR int (pagemap ! p) \<and> CMD_SET_PAGE OR int (pagemap ! p) < 256
         \<and> pagemap ! p = p"
  using page_cases [OF assms] by (auto simp: CMD_SET_PAGE_def pagemap_def)

lemma data_step:
  "steps [ok (emit (SetPin DC True)),
          with_spi_device (\<lambda>s. spi_write (slice (buffer s) a b) s)] s =
   transact (True, slice (buffer s) a b) s"
  by (simp add: transact_def ok_def emit_def with_spi_device_def spi_write_def
      split: list.split option.split)

lemma show_page_txs:
  assumes "p < 8"
  shows "show_page p s = steps (map transact (page_txs (buffer s) p)) s"
proof -
  let ?c = "[(False, [word_of_int (0xB0 OR int (pagemap ! p))]),
             (False, [word_of_int (0x00 OR 0)]),
             (False, [word_of_int (0x10 OR 0)])] :: (bool \<times> byte list) list"
  let ?f = "\<lambda>buf. slice buf (push_bit 7 p) (push_bit 7 (p + 1))"
  let ?d = "[ok (emit (SetPin DC True)), with_spi_device (\<lambda>s. spi_write (?f (buffer s)) s)]"
  have r: "0 \<le> CMD_SET_PAGE OR int (pagemap ! p)" "CMD_SET_PAGE OR int (pagemap ! p) < 256"
    using set_page_byte [OF assms] by blast+
  have "show_page p s = steps (map transact ?c @ ?d) s"
    using assms r
    by (simp add: show_page_def pagemap_def write_cmd_transact cmd_defs del: steps.simps)
  also have "\<dots> = (case steps (map transact ?c) s of
                      (Inl e, s') \<Rightarrow> (Inl e, s')
                    | (Inr u, s') \<Rightarrow> transact (True, ?f (buffer s')) s')"
    unfolding steps_append data_step by (rule refl)
  also have "\<dots> = (case steps (map transact ?c) s of
                      (Inl e, s') \<Rightarrow> (Inl e, s')
                    | (Inr u, s') \<Rightarrow> transact (True, ?f (buffer s)) s')"
    using steps_transact_buffer [of ?c s]
    by (auto split: prod.split sum.split)
  also have "\<dots> = steps (map transact (?c @ [(True, ?f (buffer s))])) s"
    unfolding map_append steps_append by (simp split: prod.split sum.split)
  also have "?c @ [(True, ?f (buffer s))] = page_txs (buffer s) p"
    by (simp add: page_txs_def push_bit_eq_mult LCDWIDTH_def)
  finally show ?thesis .
qed

lemma show_pages_txs:
  "\<forall>p \<in> set ps. p < 8 \<Longrightarrow>
   steps (map show_page ps) s = steps (map transact (concat (map (page_txs (buffer s)) ps))) s"
proof (induction ps arbitrary: s)
  case Nil
  then show ?case by simp
next
  case (Cons p ps)
  have p: "p < 8" and ps: "\<forall>p \<in> set ps. p < 8" using Cons.prems by simp_all
  let ?t = "steps (map transact (page_txs (buffer s) p)) s"
  have b: "buffer (snd ?t) = buffer s"
    by (rule steps_transact_buffer)
  have "steps (map show_page (p # ps)) s =
          (case ?t of (Inl e, s') \<Rightarrow> (Inl e, s') | (Inr u, s') \<Rightarrow> steps (map show_page ps) s')"
    by (simp add: show_page_txs [OF p])
  also have "\<dots> = (case ?t of (Inl e, s') \<Rightarrow> (Inl e, s')
                    | (Inr u, s') \<Rightarrow>
                        steps (map transact (concat (map (page_txs (buffer s)) ps))) s')"
    using b by (cases ?t) (auto simp: Cons.IH [OF ps] split: sum.split)
  also have "\<dots> = steps (map transact (concat (map (page_txs (buffer s)) (p # ps)))) s"
    by (simp add: steps_append)
  finally show ?case .
qed

lemma show_display_txs: "show_display s = steps (map transact (show_txs (buffer s))) s"
proof -
  have pm: "pagemap = [0..<8]" by (simp add: pagemap_def upt_rec)
  have "\<forall>p \<in> set [0..<8::nat]. p < 8" by simp
  from show_pages_txs [OF this] show ?thesis
    unfolding show_display_def show_txs_def pm .
qed

subsection \<open>Slices of the buffer and the bytes written\<close>

lemma slice_append:
  "a \<le> b \<Longrightarrow> b \<le> c \<Longrightarrow> slice xs a b @ slice xs b c = slice xs a c"
proof -
  assume ab: "a \<le> b" and bc: "b \<le> c"
  have "take c xs = take b xs @ drop b (take c xs)"
    using bc by (metis append_take_drop_id min.absorb1 take_take)
  then have "drop a (take c xs) = drop a (take b xs @ drop b (take c xs))" by simp
  also have "\<dots> = drop a (take b xs) @ drop b (take c xs)"
    using ab by (cases "b \<le> length xs") (simp_all add: min_def)
  finally show ?thesis by (simp add: slice_def)
qed

lemma slice_take: "b \<le> n \<Longrightarrow> slice (take n xs) a b = slice xs a b"
  by (simp add: slice_def min_def)

lemma written_tx_ok:
  "written d dc (tx_ok t @ es) = (if fst t = d then snd t else []) @ written d (fst t) es"
  by (simp add: tx_ok_def)

lemma written_txs:
  "written d dc (concat (map tx_ok txs)) = concat (map snd (filter (\<lambda>t. fst t = d) txs))"
  by (induction txs arbitrary: dc) (simp_all add: written_tx_ok del: append_assoc)

lemma show_txs_unfold:
  "show_txs buf = page_txs buf 0 @ page_txs buf 1 @ page_txs buf 2 @ page_txs buf 3 @
                  page_txs buf 4 @ page_txs buf 5 @ page_txs buf 6 @ page_txs buf 7"
  by (simp add: show_txs_def upt_rec eval_nat_numeral)

lemma length_show_txs: "length (show_txs buf) = 32"
  by (simp add: show_txs_unfold page_txs_def)

lemma show_txs_data:
  "concat (map snd (filter (\<lambda>t. fst t = True) (show_txs buf))) = take 1024 buf"
  by (simp add: show_txs_unfold page_txs_def LCDWIDTH_def slice_append)
     (simp add: slice_def)

lemma show_txs_cmds:
  "concat (map snd (filter (\<lambda>t. fst t = False) (show_txs buf))) =
   [0xB0, 0x00, 0x10, 0xB1, 0x00, 0x10, 0xB2, 0x00, 0x10, 0xB3, 0x00, 0x10,
    0xB4, 0x00, 0x10, 0xB5, 0x00, 0x10, 0xB6, 0x00, 0x10, 0xB7, 0x00, 0x10]"
  by (simp add: show_txs_unfold page_txs_def pagemap_def)

subsection \<open>What a list of transactions can depend on and change\<close>

lemma steps_transact_world:
  "\<exists>r E sc'. \<forall>s. script s = sc \<longrightarrow>
      steps (map transact txs) s = (r, s\<lparr>log := log s @ E, script := sc'\<rparr>)"
proof (induction txs arbitrary: sc)
  case Nil
  have "\<forall>s. script s = sc \<longrightarrow> steps (map transact []) s = (Inr (), s\<lparr>log := log s @ [], script := sc\<rparr>)"
    by simp
  then show ?case by blast
next
  case (Cons t txs)
  show ?case
  proof (cases sc)
    case Nil
    from Cons.IH [of "[]"] obtain r E sc' where
      ih: "\<And>s. script s = [] \<Longrightarrow>
             steps (map transact txs) s = (r, s\<lparr>log := log s @ E, script := sc'\<rparr>)"
      by blast
    have "\<forall>s. script s = sc \<longrightarrow>
            steps (map transact (t # txs)) s = (r, s\<lparr>log := log s @ (tx_ok t @ E), script := sc'\<rparr>)"
      using Nil by (simp add: transact_cases ih)
    then show ?thesis by blast
  next
    case (Cons x rest)
    show ?thesis
    proof (cases x)
      case None
      from Cons.IH [of rest] obtain r E sc' where
        ih: "\<And>s. script s = rest \<Longrightarrow>
               steps (map transact txs) s = (r, s\<lparr>log := log s @ E, script := sc'\<rparr>)"
        by blast
      have "\<forall>s. script s = sc \<longrightarrow>
              steps (map transact (t # txs)) s =
                (r, s\<lparr>log := log s @ (tx_ok t @ E), script := sc'\<rparr>)"
        using Cons None by (simp add: transact_cases ih)
      then show ?thesis by blast
    next
      case (Some e)
      have "\<forall>s. script s = sc \<longrightarrow>
              steps (map transact (t # txs)) s =
                (Inl e, s\<lparr>log := log s @ tx_failed t, script := rest\<rparr>)"
        using Cons Some by (simp add: transact_cases)
      then show ?thesis by blast
    qed
  qed
qed

lemma page_txs_take: "p < 8 \<Longrightarrow> page_txs (take 1024 buf) p = page_txs buf p"
  by (simp add: page_txs_def LCDWIDTH_def slice_take)

lemma show_txs_take: "show_txs (take 1024 buf) = show_txs buf"
  by (simp add: show_txs_unfold page_txs_take)

lemma steps_transact_frame:
  "\<exists>E sc'. steps (map transact txs) s = (fst (steps (map transact txs) s), s\<lparr>log := log s @ E, script := sc'\<rparr>)"
proof -
  obtain r E sc' where "steps (map transact txs) s = (r, s\<lparr>log := log s @ E, script := sc'\<rparr>)"
    using steps_transact_world [of "script s" txs] by blast
  then show ?thesis
    by (intro exI [of _ E] exI [of _ sc']) simp
qed

subsection \<open>The setters\<close>

lemma transact_contrast: "priv_contrast (snd (transact t s)) = priv_contrast s"
  by (simp add: transact_cases split: list.split option.split)

lemma contrast_byte:
  "0 \<le> CMD_SET_VOLUME_SECOND OR (max 0 (min v 0x7F) AND 0x3F)"
  "CMD_SET_VOLUME_SECOND OR (max 0 (min v 0x7F) AND 0x3F) < 256"
  by (simp_all add: CMD_SET_VOLUME_SECOND_def)

lemma contrast_setter_txs:
  "contrast_setter v s =
     steps (map transact [(False, [0x81]),
                          (False, [word_of_int (0x00 OR (max 0 (min v 127) AND 0x3F))])])
       (s\<lparr>priv_contrast := Some (max 0 (min v 127))\<rparr>)"
proof -
  let ?c = "max 0 (min v 127)"
  let ?s1 = "s\<lparr>priv_contrast := Some ?c\<rparr>"
  have w1: "write_cmd CMD_SET_VOLUME_FIRST = transact (False, [0x81])"
    by (simp add: write_cmd_transact CMD_SET_VOLUME_FIRST_def)
  have w2: "write_cmd (CMD_SET_VOLUME_SECOND OR (?c AND 0x3F)) =
              transact (False, [word_of_int (0x00 OR (?c AND 0x3F))])"
    using contrast_byte [of v] by (simp add: write_cmd_transact CMD_SET_VOLUME_SECOND_def)
  obtain r s' where t: "transact (False, [0x81]) ?s1 = (r, s')"
    by (cases "transact (False, [0x81]) ?s1")
  have c: "priv_contrast s' = Some ?c"
    using transact_contrast [of "(False, [0x81])" ?s1] t by simp
  show ?thesis
    by (cases r) (simp_all add: contrast_setter_def ok_def w1 w2 t c)
qed

lemma steps_transact_contrast:
  "priv_contrast (snd (steps (map transact txs) s)) = priv_contrast s"
proof -
  obtain E sc' where "steps (map transact txs) s =
      (fst (steps (map transact txs) s), s\<lparr>log := log s @ E, script := sc'\<rparr>)"
    using steps_transact_frame by blast
  then have "snd (steps (map transact txs) s) = s\<lparr>log := log s @ E, script := sc'\<rparr>"
    by (metis snd_conv)
  then show ?thesis by simp
qed

lemma contrast_setter_ok:
  assumes "no_faults 2 (script s)"
  shows "contrast_setter v s =
           (Inr (), s\<lparr>priv_contrast := Some (max 0 (min v 127)),
                       log := log s @ tx_ok (False, [0x81])
                                    @ tx_ok (False, [word_of_int (0x00 OR (max 0 (min v 127) AND 0x3F))]),
                       script := drop 2 (script s)\<rparr>)"
proof -
  let ?txs = "[(False, [0x81]), (False, [word_of_int (0x00 OR (max 0 (min v 127) AND 0x3F))])]
                :: (bool \<times> byte list) list"
  let ?s1 = "s\<lparr>priv_contrast := Some (max 0 (min v 127))\<rparr>"
  have "no_faults (length ?txs) (script ?s1)" using assms by (simp add: numeral_2_eq_2)
  then have r0: "steps (map transact ?txs) ?s1 =
      (Inr (), ?s1\<lparr>log := log ?s1 @ concat (map tx_ok ?txs),
                      script := drop (length ?txs) (script ?s1)\<rparr>)"
    by (rule steps_transact_ok)
  show ?thesis
    unfolding contrast_setter_txs r0 by (simp add: numeral_2_eq_2)
qed

lemma invert_setter_tx:
  "invert_setter b s =
     transact (False, [word_of_int (if b then CMD_SET_DISP_REVERSE else CMD_SET_DISP_NORMAL)])
       (s\<lparr>priv_invert := b\<rparr>)"
  by (simp add: invert_setter_def ok_def write_cmd_transact CMD_SET_DISP_REVERSE_def
      CMD_SET_DISP_NORMAL_def split: prod.split sum.split)

subsection \<open>Initialisation\<close>

lemma no_faults_mono: "m \<le> n \<Longrightarrow> no_faults n sc \<Longrightarrow> no_faults m sc"
  unfolding no_faults_def list_all_iff
  by (metis min.absorb1 in_set_takeD take_take)

lemma steps_items_ok:
  "no_faults (writes_of items) (script s) \<Longrightarrow>
   steps (map run_item items) s =
     (Inr (), s\<lparr>log := log s @ concat (map item_events items),
                 script := drop (writes_of items) (script s)\<rparr>)"
proof (induction items arbitrary: s)
  case Nil
  then show ?case by simp
next
  case (Cons i items)
  show ?case
  proof (cases i)
    case (Inl ev)
    let ?s1 = "s\<lparr>log := log s @ [ev]\<rparr>"
    have "no_faults (writes_of items) (script ?s1)" using Cons.prems Inl by simp
    from Cons.IH [OF this] show ?thesis
      using Inl by (simp add: run_item_def item_events_def ok_def emit_def)
  next
    case (Inr t)
    let ?s1 = "s\<lparr>log := log s @ tx_ok t, script := drop 1 (script s)\<rparr>"
    have h: "no_faults (Suc (writes_of items)) (script s)" using Cons.prems Inr by simp
    have "no_faults (writes_of items) (script ?s1)"
      using no_faults_drop [of 1 "writes_of items" "script s"] h by simp
    from Cons.IH [OF this] show ?thesis
      using Inr by (simp add: run_item_def item_events_def transact_ok [OF h])
  qed
qed

lemma reset_result: "reset s = (Inr (), s\<lparr>log := log s @ reset_events (priv_reset_pin s)\<rparr>)"
  by (simp add: reset_def reset_events_def ok_def emit_def sleep_def)

lemma init_tail:
  "init rp c lg sc =
     steps (map run_item init_items @ [contrast_setter c])
       \<lparr>buffer = replicate (LCDHEIGHT * LCDWIDTH) 0, priv_contrast = None, priv_invert = False,
        priv_reset_pin = rp,
        log = lg @ [SwitchToOutput DC False] @ (if rp then [SwitchToOutput RST True] else [])
                 @ reset_events rp,
        script = sc\<rparr>"
proof -
  have w: "\<And>c. 0 \<le> c \<Longrightarrow> c < 256 \<Longrightarrow> run_item (cmd c) = write_cmd c"
    by (simp add: run_item_def cmd_def write_cmd_transact)
  have s: "\<And>n. run_item (Inl (Sleep n)) = ok (sleep n)"
    by (simp add: run_item_def sleep_def)
  have items: "map run_item init_items =
      [write_cmd CMD_SET_BIAS_7, write_cmd CMD_SET_ADC_REVERSE, write_cmd CMD_SET_COM_NORMAL,
       write_cmd CMD_SET_DISP_START_LINE,
       write_cmd (CMD_SET_POWER_CONTROL OR 0x4), ok (sleep 50),
       write_cmd (CMD_SET_POWER_CONTROL OR 0x6), ok (sleep 50),
       write_cmd (CMD_SET_POWER_CONTROL OR 0x7), ok (sleep 10),
       write_cmd (CMD_SET_RESISTOR_RATIO OR 0x7), write_cmd CMD_DISPLAY_ON,
       write_cmd CMD_SET_ALLPTS_NORMAL]"
    unfolding init_items_def list.map s
    by (simp add: w cmd_defs)
  show ?thesis
    unfolding items init_def
    by (cases rp) (simp_all add: ok_def emit_def reset_result reset_events_def)
qed

subsection \<open>Statements that only use the bus\<close>

lemma bus_only_ok_emit: "quiet ev \<Longrightarrow> bus_only (ok (emit ev))"
  by (simp add: bus_only_def ok_def emit_def)

lemma bus_only_transact: "bus_only (transact t)"
  unfolding bus_only_def
proof
  fix s
  show "\<exists>E. log (snd (transact t s)) = log s @ E \<and> list_all quiet E
             \<and> buffer (snd (transact t s)) = buffer s"
    by (cases "script s" rule: list.exhaust [case_names Nil Cons])
       (auto simp: transact_cases tx_ok_def tx_failed_def split: option.split)
qed

lemma bus_only_write_cmd: "bus_only (write_cmd c)"
proof (cases "0 \<le> c \<and> c < 256")
  case True
  then show ?thesis by (simp add: write_cmd_transact bus_only_transact)
next
  case False
  then show ?thesis
    by (auto simp: bus_only_def write_cmd_def bytearray1_def ok_def emit_def with_spi_device_def)
qed

lemma bus_only_run_item: "(\<And>ev. i = Inl ev \<Longrightarrow> quiet ev) \<Longrightarrow> bus_only (run_item i)"
  by (cases i) (simp_all add: run_item_def bus_only_ok_emit bus_only_transact)

lemma bus_only_steps: "(\<And>f. f \<in> set fs \<Longrightarrow> bus_only f) \<Longrightarrow> bus_only (steps fs)"
proof (induction fs)
  case Nil
  then show ?case by (simp add: bus_only_def)
next
  case (Cons f fs)
  have f: "bus_only f" and fs: "bus_only (steps fs)"
    using Cons by simp_all
  show ?case
    unfolding bus_only_def
  proof
    fix s
    obtain r s' where fs': "f s = (r, s')" by (cases "f s")
    obtain E1 where e1: "log s' = log s @ E1" "list_all quiet E1" "buffer s' = buffer s"
      using f fs' unfolding bus_only_def by (metis snd_conv)
    obtain E2 where e2: "log (snd (steps fs s')) = log s' @ E2" "list_all quiet E2"
        "buffer (snd (steps fs s')) = buffer s'"
      using fs unfolding bus_only_def by blast
    show "\<exists>E. log (snd (steps (f # fs) s)) = log s @ E \<and> list_all quiet E
               \<and> buffer (snd (steps (f # fs) s)) = buffer s"
    proof (cases r)
      case (Inl e)
      then show ?thesis using fs' e1 by simp
    next
      case (Inr u)
      then have "steps (f # fs) s = steps fs s'" using fs' by simp
      then show ?thesis
        using e1 e2 by (intro exI [of _ "E1 @ E2"]) simp
    qed
  qed
qed

lemma bus_only_contrast_setter: "bus_only (contrast_setter v)"
  unfolding bus_only_def
proof
  fix s :: st
  let ?txs = "[(False, [0x81]), (False, [word_of_int (0x00 OR (max 0 (min v 127) AND 0x3F))])]
                :: (bool \<times> byte list) list"
  let ?s1 = "s\<lparr>priv_contrast := Some (max 0 (min v 127))\<rparr>"
  have "bus_only (steps (map transact ?txs))"
    by (rule bus_only_steps) (auto simp: bus_only_transact)
  then obtain E where "log (snd (steps (map transact ?txs) ?s1)) = log ?s1 @ E"
      "list_all quiet E" "buffer (snd (steps (map transact ?txs) ?s1)) = buffer ?s1"
    unfolding bus_only_def by blast
  then have "log (snd (contrast_setter v s)) = log s @ E \<and> list_all quiet E
             \<and> buffer (snd (contrast_setter v s)) = buffer s"
    unfolding contrast_setter_txs by simp
  then show "\<exists>E. log (snd (contrast_setter v s)) = log s @ E \<and> list_all quiet E
                 \<and> buffer (snd (contrast_setter v s)) = buffer s"
    by blast
qed

lemma bus_only_init_tail: "bus_only (steps (map run_item init_items @ [contrast_setter c]))"
proof (rule bus_only_steps)
  fix f
  assume "f \<in> set (map run_item init_items @ [contrast_setter c])"
  then consider "f = contrast_setter c" | i where "i \<in> set init_items" "f = run_item i"
    by auto
  then show "bus_only f"
  proof cases
    case 1
    then show ?thesis by (simp add: bus_only_contrast_setter)
  next
    case 2
    then have "\<And>ev. i = Inl ev \<Longrightarrow> quiet ev"
      by (auto simp: init_items_def cmd_def)
    then show ?thesis using 2 by (simp add: bus_only_run_item)
  qed
qed

lemma buffer_unchanged:
  "buffer (snd (reset s)) = buffer s"
  "buffer (snd (write_cmd c s)) = buffer s"
  "buffer (snd (show_display s)) = buffer s"
  "buffer (snd (invert_setter b s)) = buffer s"
  "buffer (snd (contrast_setter v s)) = buffer s"
  "buffer (snd (invert s)) = buffer s"
  "buffer (snd (contrast s)) = buffer s"
proof -
  show "buffer (snd (reset s)) = buffer s"
    by (simp add: reset_result)
  show "buffer (snd (write_cmd c s)) = buffer s"
    using bus_only_write_cmd [of c] unfolding bus_only_def by blast
  show "buffer (snd (show_display s)) = buffer s"
    by (simp add: show_display_txs steps_transact_buffer)
  have "buffer (snd (transact t s1)) = buffer s1" for t s1
    using bus_only_transact [of t] unfolding bus_only_def by blast
  then show "buffer (snd (invert_setter b s)) = buffer s"
    by (simp add: invert_setter_tx)
  show "buffer (snd (contrast_setter v s)) = buffer s"
    using bus_only_contrast_setter [of v] unfolding bus_only_def by blast
  show "buffer (snd (invert s)) = buffer s" "buffer (snd (contrast s)) = buffer s"
    by (simp_all add: invert_def contrast_def)
qed

section \<open>The claims\<close>

text \<open>
  C1. When the bus does not fail, \<open>show\<close> performs for each page \<open>p = 0..7\<close>, in
  ascending order, the command \<open>0xB0 OR pagemap[p]\<close>, the command \<open>0x00 OR 0\<close>, the
  command \<open>0x10 OR 0\<close> and then one data write of the buffer bytes from \<open>p * WIDTH\<close> up to
  \<open>(p + 1) * WIDTH\<close>, and nothing else; each data write has \<open>WIDTH = 128\<close> bytes and the
  data bytes of one call are the first \<open>WIDTH * HEIGHT / 8 = 1024\<close> bytes of the buffer.
\<close>

theorem show_display_transfers:
  assumes "no_faults 32 (script s)" and "LCDWIDTH * LCDHEIGHT div 8 \<le> length (buffer s)"
  shows "show_display s =
           (Inr (), s\<lparr>log := log s @ concat (map tx_ok (concat (map (page_txs (buffer s)) [0..<8]))),
                       script := drop 32 (script s)\<rparr>)
         \<and> (\<forall>p<8. length (slice (buffer s) (p * LCDWIDTH) ((p + 1) * LCDWIDTH)) = LCDWIDTH)
         \<and> written True dc (emitted show_display s) = take 1024 (buffer s)
         \<and> length (written True dc (emitted show_display s)) = LCDWIDTH * LCDHEIGHT div 8
         \<and> written False dc (emitted show_display s) =
             [0xB0, 0x00, 0x10, 0xB1, 0x00, 0x10, 0xB2, 0x00, 0x10, 0xB3, 0x00, 0x10,
              0xB4, 0x00, 0x10, 0xB5, 0x00, 0x10, 0xB6, 0x00, 0x10, 0xB7, 0x00, 0x10]"
proof -
  have nf: "no_faults (length (show_txs (buffer s))) (script s)"
    using assms(1) by (simp add: length_show_txs)
  have r: "show_display s =
           (Inr (), s\<lparr>log := log s @ concat (map tx_ok (show_txs (buffer s))),
                       script := drop 32 (script s)\<rparr>)"
    using steps_transact_ok [OF nf] by (simp add: show_display_txs length_show_txs)
  have e: "emitted show_display s = concat (map tx_ok (show_txs (buffer s)))"
    by (simp add: emitted_def r)
  have w: "written True dc (emitted show_display s) = take 1024 (buffer s)"
    unfolding e written_txs by (rule show_txs_data)
  have l: "\<forall>p<8. length (slice (buffer s) (p * LCDWIDTH) ((p + 1) * LCDWIDTH)) = LCDWIDTH"
    using assms(2) by (auto simp: slice_def LCDWIDTH_def LCDHEIGHT_def)
  have n: "length (written True dc (emitted show_display s)) = LCDWIDTH * LCDHEIGHT div 8"
    using assms(2) by (simp add: w LCDWIDTH_def LCDHEIGHT_def)
  have c: "written False dc (emitted show_display s) =
             [0xB0, 0x00, 0x10, 0xB1, 0x00, 0x10, 0xB2, 0x00, 0x10, 0xB3, 0x00, 0x10,
              0xB4, 0x00, 0x10, 0xB5, 0x00, 0x10, 0xB6, 0x00, 0x10, 0xB7, 0x00, 0x10]"
    unfolding e written_txs by (rule show_txs_cmds)
  from r w l n c show ?thesis by (simp add: show_txs_def)
qed

theorem show_display_transfers_witness:
  "no_faults 32 (script example_state)
   \<and> LCDWIDTH * LCDHEIGHT div 8 \<le> length (buffer example_state)
   \<and> fst (show_display example_state) = Inr ()
   \<and> written True False (emitted show_display example_state) = replicate 1024 0"
proof -
  have a: "no_faults 32 (script example_state)"
    by (simp add: example_state_def no_faults_def)
  have b: "LCDWIDTH * LCDHEIGHT div 8 \<le> length (buffer example_state)"
    by (simp add: example_state_def LCDWIDTH_def LCDHEIGHT_def)
  show ?thesis
    using a b show_display_transfers [OF a b, of False]
    by (simp add: example_state_def LCDWIDTH_def LCDHEIGHT_def)
qed

text \<open>
  C2. Whatever the arguments and whatever the bus does, the buffer that \<open>__init__\<close> leaves
  has \<open>LCDHEIGHT * LCDWIDTH = 8192\<close> bytes, not the \<open>WIDTH * HEIGHT / 8 = 1024\<close> bytes of
  the eight pages that \<open>show\<close> transfers. (No method changes the buffer afterwards:
  \<open>buffer_unchanged\<close>.)
\<close>

theorem init_buffer_length:
  "length (buffer (snd (init rp c lg sc))) = 8192 \<and> LCDWIDTH * LCDHEIGHT div 8 = 1024"
proof -
  let ?s1 = "\<lparr>buffer = replicate (LCDHEIGHT * LCDWIDTH) 0, priv_contrast = None,
              priv_invert = False, priv_reset_pin = rp,
              log = lg @ [SwitchToOutput DC False] @ (if rp then [SwitchToOutput RST True] else [])
                       @ reset_events rp,
              script = sc\<rparr>"
  have "buffer (snd (init rp c lg sc)) = buffer ?s1"
    using bus_only_init_tail [of c] unfolding bus_only_def init_tail by blast
  then show ?thesis by (simp add: LCDWIDTH_def LCDHEIGHT_def)
qed

text \<open>
  C3. When the bus does not fail, \<open>__init__\<close> emits, after the pin set-up and the reset
  pulse, exactly the items of \<open>init_items\<close> in their order and then the two contrast
  commands: bias select, ADC reverse, COM output normal, start line 0, power-control
  stage 1, a delay of 50 ms, stage 2, a delay of 50 ms, stage 3, a delay of 10 ms,
  resistor ratio, display on, all-points-normal. Between two power-control stages there
  is only the delay, and display on comes right after the resistor ratio and right
  before all-points-normal.
\<close>

theorem init_command_order:
  assumes "no_faults 12 sc"
  shows "init rp c lg sc =
           (Inr (),
            \<lparr>buffer = replicate (LCDHEIGHT * LCDWIDTH) 0,
             priv_contrast = Some (max 0 (min c 127)), priv_invert = False, priv_reset_pin = rp,
             log = lg @ [SwitchToOutput DC False] @ (if rp then [SwitchToOutput RST True] else [])
                      @ reset_events rp
                      @ concat (map item_events init_items)
                      @ tx_ok (False, [0x81])
                      @ tx_ok (False, [word_of_int (0x00 OR (max 0 (min c 127) AND 0x3F))]),
             script = drop 12 sc\<rparr>)
         \<and> concat (map item_events init_items) =
             [SetPin DC False, Acquire, Write [0xA3], Release,
              SetPin DC False, Acquire, Write [0xA1], Release,
              SetPin DC False, Acquire, Write [0xC0], Release,
              SetPin DC False, Acquire, Write [0x40], Release,
              SetPin DC False, Acquire, Write [0x2C], Release, Sleep 50,
              SetPin DC False, Acquire, Write [0x2E], Release, Sleep 50,
              SetPin DC False, Acquire, Write [0x2F], Release, Sleep 10,
              SetPin DC False, Acquire, Write [0x27], Release,
              SetPin DC False, Acquire, Write [0xAF], Release,
              SetPin DC False, Acquire, Write [0xA4], Release]"
proof -
  let ?s1 = "\<lparr>buffer = replicate (LCDHEIGHT * LCDWIDTH) 0, priv_contrast = None,
              priv_invert = False, priv_reset_pin = rp,
              log = lg @ [SwitchToOutput DC False] @ (if rp then [SwitchToOutput RST True] else [])
                       @ reset_events rp,
              script = sc\<rparr>"
  let ?s2 = "?s1\<lparr>log := log ?s1 @ concat (map item_events init_items),
                  script := drop 10 sc\<rparr>"
  have n: "writes_of init_items = 10"
    by (simp add: init_items_def cmd_def)
  have "no_faults 10 sc"
    using assms by (rule no_faults_mono [rotated]) simp
  then have "no_faults (writes_of init_items) (script ?s1)"
    by (simp add: n)
  from steps_items_ok [OF this]
  have r1: "steps (map run_item init_items) ?s1 = (Inr (), ?s2)"
    by (simp add: n)
  have "no_faults 2 (script ?s2)"
    using no_faults_drop [of 10 2 sc] assms by simp
  from contrast_setter_ok [OF this, of c]
  have r2: "contrast_setter c ?s2 =
      (Inr (), ?s2\<lparr>priv_contrast := Some (max 0 (min c 127)),
                    log := log ?s2 @ tx_ok (False, [0x81])
                             @ tx_ok (False, [word_of_int (0x00 OR (max 0 (min c 127) AND 0x3F))]),
                    script := drop 2 (script ?s2)\<rparr>)" .
  have "init rp c lg sc = contrast_setter c ?s2"
    unfolding init_tail steps_append r1 by (cases "contrast_setter c ?s2") (auto split: sum.split)
  then have i: "init rp c lg sc =
           (Inr (),
            \<lparr>buffer = replicate (LCDHEIGHT * LCDWIDTH) 0,
             priv_contrast = Some (max 0 (min c 127)), priv_invert = False, priv_reset_pin = rp,
             log = lg @ [SwitchToOutput DC False] @ (if rp then [SwitchToOutput RST True] else [])
                      @ reset_events rp
                      @ concat (map item_events init_items)
                      @ tx_ok (False, [0x81])
                      @ tx_ok (False, [word_of_int (0x00 OR (max 0 (min c 127) AND 0x3F))]),
             script = drop 12 sc\<rparr>)"
    unfolding r2 by simp
  show ?thesis
    unfolding i by (simp add: init_items_def item_events_def cmd_def tx_ok_def cmd_defs)
qed

theorem init_command_order_witness:
  "no_faults 12 []
   \<and> init True 200 [] [] =
       (Inr (),
        \<lparr>buffer = replicate (LCDHEIGHT * LCDWIDTH) 0,
         priv_contrast = Some 127, priv_invert = False, priv_reset_pin = True,
         log = [SwitchToOutput DC False, SwitchToOutput RST True,
                SetPin RST False, Sleep 500, SetPin RST True, Sleep 500,
                SetPin DC False, Acquire, Write [0xA3], Release,
                SetPin DC False, Acquire, Write [0xA1], Release,
                SetPin DC False, Acquire, Write [0xC0], Release,
                SetPin DC False, Acquire, Write [0x40], Release,
                SetPin DC False, Acquire, Write [0x2C], Release, Sleep 50,
                SetPin DC False, Acquire, Write [0x2E], Release, Sleep 50,
                SetPin DC False, Acquire, Write [0x2F], Release, Sleep 10,
                SetPin DC False, Acquire, Write [0x27], Release,
                SetPin DC False, Acquire, Write [0xAF], Release,
                SetPin DC False, Acquire, Write [0xA4], Release,
                SetPin DC False, Acquire, Write [0x81], Release,
                SetPin DC False, Acquire, Write [0x3F], Release],
         script = []\<rparr>)"
proof -
  have a: "no_faults 12 []" by (simp add: no_faults_def)
  show ?thesis
    using a init_command_order [OF a, of True 200 "[]"]
    by (simp add: reset_events_def tx_ok_def)
qed

text \<open>
  C4. For every integer \<open>v\<close> and every state, when the bus does not fail, the contrast
  setter leaves \<open>max 0 (min v 127)\<close> in the cache and issues exactly two command bytes,
  \<open>0x81\<close> and then \<open>0x00 OR (clamped AND 0x3F)\<close>, whatever the cache held before.
\<close>

theorem contrast_setter_clamps_and_writes:
  assumes "no_faults 2 (script s)"
  shows "contrast_setter v s =
           (Inr (), s\<lparr>priv_contrast := Some (max 0 (min v 127)),
                       log := log s @ tx_ok (False, [0x81])
                                    @ tx_ok (False, [word_of_int (0x00 OR (max 0 (min v 127) AND 0x3F))]),
                       script := drop 2 (script s)\<rparr>)
         \<and> fst (contrast (snd (contrast_setter v s))) = Inr (Some (max 0 (min v 127)))
         \<and> written False dc (emitted (contrast_setter v) s) =
             [0x81, word_of_int (0x00 OR (max 0 (min v 127) AND 0x3F))]"
  by (simp add: contrast_setter_ok [OF assms] contrast_def emitted_def tx_ok_def)

theorem contrast_setter_clamps_and_writes_witness:
  "no_faults 2 (script example_state)
   \<and> priv_contrast example_state = Some 0
   \<and> fst (contrast_setter 300 example_state) = Inr ()
   \<and> fst (contrast (snd (contrast_setter 300 example_state))) = Inr (Some 127)
   \<and> written False True (emitted (contrast_setter 300) example_state) = [0x81, 0x3F]
   \<and> written False True (emitted (contrast_setter 0) example_state) = [0x81, 0x00]"
proof -
  have a: "no_faults 2 (script example_state)"
    by (simp add: example_state_def no_faults_def)
  have b: "priv_contrast example_state = Some 0"
    by (simp add: example_state_def)
  show ?thesis
    using a b contrast_setter_clamps_and_writes [OF a, of 300 True]
      contrast_setter_clamps_and_writes [OF a, of 0 True]
    by (simp add: contrast_def)
qed

text \<open>
  C5, as stated, fails: the setter assigns \<open>_contrast\<close> before its first write. With a
  cached contrast of 0 and a bus whose next write raises, setting the contrast to 64
  raises and leaves 64 in the cache.
\<close>

theorem contrast_cache_kept_on_error_counterexample:
  "fst (contrast_setter 64 first_write_fails) = Inl (TransportError 1)
   \<and> priv_contrast (snd (contrast_setter 64 first_write_fails)) \<noteq> priv_contrast first_write_fails"
  by (simp add: contrast_setter_txs first_write_fails_def transact_cases)

text \<open>
  C5, amended. The contrast setter updates the cache before issuing its command pair: if
  one of its two bus writes raises \<open>e\<close>, the setter raises \<open>e\<close> and the cached contrast is
  already the clamped requested value.
\<close>

theorem contrast_cache_set_before_error:
  assumes "k < 2" and "script s = replicate k None @ Some e # rest"
  shows "fst (contrast_setter v s) = Inl e
         \<and> priv_contrast (snd (contrast_setter v s)) = Some (max 0 (min v 127))"
proof -
  let ?txs = "[(False, [0x81]), (False, [word_of_int (0x00 OR (max 0 (min v 127) AND 0x3F))])]
                :: (bool \<times> byte list) list"
  let ?s1 = "s\<lparr>priv_contrast := Some (max 0 (min v 127))\<rparr>"
  have k: "k < length ?txs" using assms(1) by simp
  have sc: "script ?s1 = replicate k None @ Some e # rest" using assms(2) by simp
  have "fst (contrast_setter v s) = Inl e"
    using steps_transact_fault [OF k sc] by (simp add: contrast_setter_txs)
  moreover have "priv_contrast (snd (contrast_setter v s)) = Some (max 0 (min v 127))"
    using steps_transact_contrast [of ?txs ?s1] by (simp add: contrast_setter_txs)
  ultimately show ?thesis by simp
qed

theorem contrast_cache_set_before_error_witness:
  "(1::nat) < 2 \<and> script (example_state\<lparr>script := [None, Some ValueError]\<rparr>)
                    = replicate 1 None @ Some ValueError # []
   \<and> fst (contrast_setter 64 (example_state\<lparr>script := [None, Some ValueError]\<rparr>)) = Inl ValueError
   \<and> priv_contrast (snd (contrast_setter 64 (example_state\<lparr>script := [None, Some ValueError]\<rparr>)))
       = Some 64"
proof -
  have a: "(1::nat) < 2" by simp
  have b: "script (example_state\<lparr>script := [None, Some ValueError]\<rparr>)
             = replicate 1 None @ Some ValueError # []" by simp
  show ?thesis
    using a b contrast_cache_set_before_error [OF a b, of 64] by simp
qed

text \<open>
  C6. \<open>reset\<close> never fails and adds to the log exactly the reset pulse: nothing when there
  is no reset line, and otherwise low, a sleep of 500 ms, high, a sleep of 500 ms. In
  \<open>__init__\<close> the pulse comes right after the pin set-up, before any bus write, and all
  later events are quiet (no reset-pin event, no sleep of 500 ms), whatever the bus does.
\<close>

theorem reset_pulse:
  "reset s = (Inr (), s\<lparr>log := log s @ reset_events (priv_reset_pin s)\<rparr>)
   \<and> reset_events False = []
   \<and> reset_events True = [SetPin RST False, Sleep 500, SetPin RST True, Sleep 500]
   \<and> (\<exists>E. log (snd (init rp c lg sc)) =
             lg @ [SwitchToOutput DC False] @ (if rp then [SwitchToOutput RST True] else [])
                @ reset_events rp @ E
           \<and> list_all quiet E)"
proof -
  let ?s1 = "\<lparr>buffer = replicate (LCDHEIGHT * LCDWIDTH) 0, priv_contrast = None,
              priv_invert = False, priv_reset_pin = rp,
              log = lg @ [SwitchToOutput DC False] @ (if rp then [SwitchToOutput RST True] else [])
                       @ reset_events rp,
              script = sc\<rparr>"
  obtain E where "log (snd (init rp c lg sc)) = log ?s1 @ E" "list_all quiet E"
    using bus_only_init_tail [of c] unfolding bus_only_def init_tail by blast
  then have "\<exists>E. log (snd (init rp c lg sc)) =
             lg @ [SwitchToOutput DC False] @ (if rp then [SwitchToOutput RST True] else [])
                @ reset_events rp @ E
           \<and> list_all quiet E"
    by (intro exI [of _ E]) simp
  then show ?thesis
    by (simp add: reset_result) (simp add: reset_events_def)
qed

theorem reset_pulse_witness:
  "reset example_state =
     (Inr (), example_state\<lparr>log := [SetPin RST False, Sleep 500, SetPin RST True, Sleep 500]\<rparr>)
   \<and> reset (example_state\<lparr>priv_reset_pin := False\<rparr>)
       = (Inr (), example_state\<lparr>priv_reset_pin := False\<rparr>)
   \<and> (\<exists>E. log (snd (init True 0 [] [Some (TransportError 1)])) =
             [SwitchToOutput DC False, SwitchToOutput RST True,
              SetPin RST False, Sleep 500, SetPin RST True, Sleep 500] @ E
           \<and> list_all quiet E)"
proof -
  have a: "priv_reset_pin example_state" "log example_state = []"
    by (simp_all add: example_state_def)
  have b: "(example_state\<lparr>priv_reset_pin := False\<rparr>)\<lparr>log := log example_state\<rparr>
           = example_state\<lparr>priv_reset_pin := False\<rparr>"
    by simp
  show ?thesis
    using reset_pulse [of example_state True 0 "[]" "[Some (TransportError 1)]"]
      reset_pulse [of "example_state\<lparr>priv_reset_pin := False\<rparr>" True 0 "[]" "[]"]
    by (simp add: a b)
qed

text \<open>
  C7. If the write of transaction number \<open>k\<close> of \<open>show\<close> raises \<open>e\<close> (the ones before it
  having succeeded), \<open>show\<close> raises the same \<open>e\<close>; the log ends with the failed
  transaction, so nothing is written afterwards, for this page or any later one.
\<close>

theorem show_display_aborts:
  assumes "k < 32" and "script s = replicate k None @ Some e # rest"
  shows "show_display s =
           (Inl e, s\<lparr>log := log s @ concat (map tx_ok (take k (show_txs (buffer s))))
                                 @ tx_failed (show_txs (buffer s) ! k),
                      script := rest\<rparr>)"
proof -
  have "k < length (show_txs (buffer s))"
    using assms(1) by (simp add: length_show_txs)
  from steps_transact_fault [OF this assms(2)] show ?thesis
    by (simp add: show_display_txs)
qed

theorem show_display_aborts_witness:
  "(5::nat) < 32 \<and> script faulty_state = replicate 5 None @ Some (TransportError 5) # []
   \<and> fst (show_display faulty_state) = Inl (TransportError 5)
   \<and> log (snd (show_display faulty_state)) =
       [SetPin DC False, Acquire, Write [0xB0], Release,
        SetPin DC False, Acquire, Write [0x00], Release,
        SetPin DC False, Acquire, Write [0x10], Release,
        SetPin DC True, Acquire, Write (replicate 128 0), Release,
        SetPin DC False, Acquire, Write [0xB1], Release,
        SetPin DC False, Acquire, WriteFailed [0x00], Release]"
proof -
  have a: "(5::nat) < 32" by simp
  have b: "script faulty_state = replicate 5 None @ Some (TransportError 5) # []"
    by (simp add: faulty_state_def eval_nat_numeral)
  show ?thesis
    using a b show_display_aborts [OF a b]
    by (simp add: faulty_state_def show_txs_unfold page_txs_def tx_ok_def tx_failed_def
        pagemap_def slice_def LCDWIDTH_def LCDHEIGHT_def)
qed

text \<open>
  C8. When the bus does not fail, setting \<open>invert\<close> to \<open>b\<close> issues the single command
  \<open>0xA7\<close> (display reverse) if \<open>b\<close> and \<open>0xA6\<close> (display normal) otherwise, and the getter
  then returns \<open>b\<close>.
\<close>

theorem invert_round_trip:
  assumes "no_faults 1 (script s)"
  shows "invert_setter b s =
           (Inr (), s\<lparr>priv_invert := b,
                       log := log s @ tx_ok (False, [if b then 0xA7 else 0xA6]),
                       script := drop 1 (script s)\<rparr>)
         \<and> fst (invert (snd (invert_setter b s))) = Inr b
         \<and> written False dc (emitted (invert_setter b) s) = [if b then 0xA7 else 0xA6]"
proof -
  have "no_faults (Suc 0) (script (s\<lparr>priv_invert := b\<rparr>))" using assms by simp
  from transact_ok [OF this]
  have r: "invert_setter b s =
           (Inr (), s\<lparr>priv_invert := b,
                       log := log s @ tx_ok (False, [if b then 0xA7 else 0xA6]),
                       script := drop 1 (script s)\<rparr>)"
    by (simp add: invert_setter_tx CMD_SET_DISP_REVERSE_def CMD_SET_DISP_NORMAL_def)
  show ?thesis
    by (simp add: r invert_def emitted_def tx_ok_def)
qed

theorem invert_round_trip_witness:
  "no_faults 1 (script example_state)
   \<and> fst (invert (snd (invert_setter True example_state))) = Inr True
   \<and> last (written False True (emitted (invert_setter True) example_state)) = 0xA7
   \<and> fst (invert (snd (invert_setter False example_state))) = Inr False
   \<and> written False True (emitted (invert_setter False) example_state) = [0xA6]"
proof -
  have a: "no_faults 1 (script example_state)"
    by (simp add: example_state_def no_faults_def)
  show ?thesis
    using a invert_round_trip [OF a, of True True] invert_round_trip [OF a, of False True]
    by (simp add: invert_def)
qed

text \<open>
  C9. The two getters return the cached value, leave the whole state as it is and emit no
  event.
\<close>

theorem getters_are_pure:
  "invert s = (Inr (priv_invert s), s) \<and> contrast s = (Inr (priv_contrast s), s)
   \<and> emitted invert s = [] \<and> emitted contrast s = []"
  by (simp add: invert_def contrast_def emitted_def)

text \<open>
  C10. Two states whose buffers agree on the first \<open>WIDTH * HEIGHT / 8 = 1024\<close> bytes, on
  the same bus, make \<open>show\<close> return the same result and emit the same events: no byte at
  an index from 1024 on reaches the bus.
\<close>

theorem show_display_first_bytes_only:
  assumes "take (LCDWIDTH * LCDHEIGHT div 8) (buffer s1) = take (LCDWIDTH * LCDHEIGHT div 8) (buffer s2)"
    and "script s1 = script s2"
  shows "fst (show_display s1) = fst (show_display s2)
         \<and> emitted show_display s1 = emitted show_display s2"
proof -
  have t: "take 1024 (buffer s1) = take 1024 (buffer s2)"
    using assms(1) by (simp add: LCDWIDTH_def LCDHEIGHT_def)
  have txs: "show_txs (buffer s1) = show_txs (buffer s2)"
    using show_txs_take [of "buffer s1"] show_txs_take [of "buffer s2"] t by simp
  obtain r E sc' where
    w: "\<And>s. script s = script s1 \<Longrightarrow>
          steps (map transact (show_txs (buffer s1))) s = (r, s\<lparr>log := log s @ E, script := sc'\<rparr>)"
    using steps_transact_world [of "script s1" "show_txs (buffer s1)"] by blast
  have r1: "show_display s1 = (r, s1\<lparr>log := log s1 @ E, script := sc'\<rparr>)"
    by (simp add: show_display_txs w)
  have r2: "show_display s2 = (r, s2\<lparr>log := log s2 @ E, script := sc'\<rparr>)"
    using assms(2) w [of s2] by (simp add: show_display_txs txs)
  show ?thesis by (simp add: emitted_def r1 r2)
qed

theorem show_display_first_bytes_only_witness:
  "take (LCDWIDTH * LCDHEIGHT div 8) (buffer example_state)
     = take (LCDWIDTH * LCDHEIGHT div 8) (buffer other_state)
   \<and> script example_state = script other_state
   \<and> buffer example_state \<noteq> buffer other_state
   \<and> fst (show_display example_state) = fst (show_display other_state)
   \<and> emitted show_display example_state = emitted show_display other_state"
proof -
  have a: "take (LCDWIDTH * LCDHEIGHT div 8) (buffer example_state)
             = take (LCDWIDTH * LCDHEIGHT div 8) (buffer other_state)"
    by (simp add: example_state_def other_state_def LCDWIDTH_def LCDHEIGHT_def)
  have b: "script example_state = script other_state"
    by (simp add: example_state_def other_state_def)
  have "length (buffer example_state) \<noteq> length (buffer other_state)"
    by (simp add: example_state_def other_state_def LCDWIDTH_def LCDHEIGHT_def)
  then have c: "buffer example_state \<noteq> buffer other_state" by auto
  show ?thesis
    using a b c show_display_first_bytes_only [OF a b] by simp
qed

end
